theory Spec2Isabelle
  imports Main "HOL-Library.Sublist" "HOL-Library.AList"
begin

section \<open>Python strings\<close>

text \<open>
  A Python \<open>str\<close> is a sequence of Unicode code points, and \<open>len\<close>, slicing,
  \<open>strip\<close>, \<open>split\<close> and the JSON scanner all count code points. A string is
  therefore a list of natural numbers (the \<open>ord\<close> of each character); \<open>str_of\<close>
  turns an ASCII literal of the source into that list.
\<close>

type_synonym str = "nat list"

definition str_of :: "string \<Rightarrow> str" where
  "str_of cs = map of_char cs"

text \<open>
  \<open>str.strip()\<close> without an argument removes the characters for which
  \<open>str.isspace()\<close> holds from both ends: the ASCII white space and separators
  (9 to 13, 28 to 32), NEL (133), the no-break space (160) and the Unicode spaces
  beyond Latin-1.
\<close>

definition isspace :: "nat \<Rightarrow> bool" where
  "isspace c =
     ((9 \<le> c \<and> c \<le> 13) \<or> (28 \<le> c \<and> c \<le> 32) \<or> c = 133 \<or> c = 160 \<or> c = 5760
      \<or> (8192 \<le> c \<and> c \<le> 8202) \<or> c = 8232 \<or> c = 8233 \<or> c = 8239 \<or> c = 8287
      \<or> c = 12288)"

definition lstrip :: "str \<Rightarrow> str" where
  "lstrip s = dropWhile isspace s"

definition rstrip :: "str \<Rightarrow> str" where
  "rstrip s = rev (dropWhile isspace (rev s))"

definition strip :: "str \<Rightarrow> str" where
  "strip s = rstrip (lstrip s)"

definition startswith :: "str \<Rightarrow> str \<Rightarrow> bool" where
  "startswith s p = (take (length p) s = p)"

datatype exn =
  JSONDecodeError | IndexError | KeyError | TypeError | ValueError | RecursionError | ProviderError

text \<open>
  \<open>s.split(sep)\<close>: the pieces of \<open>s\<close> between the occurrences of \<open>sep\<close>, found
  from the left and not overlapping. \<open>split_from sep cur s\<close> scans \<open>s\<close> with \<open>cur\<close>
  the piece collected so far. Python raises ValueError on an empty separator.
\<close>

function split_from :: "str \<Rightarrow> str \<Rightarrow> str \<Rightarrow> str list" where
  "split_from sep cur [] = [cur]"
| "split_from sep cur (c # cs) =
     (if sep \<noteq> [] \<and> startswith (c # cs) sep
      then cur # split_from sep [] (drop (length sep) (c # cs))
      else split_from sep (cur @ [c]) cs)"
  by pat_completeness auto
termination
  by (relation "measure (\<lambda>(sep, cur, s). length s)") (auto simp: neq_Nil_conv)

definition split :: "str \<Rightarrow> str \<Rightarrow> exn + str list" where
  "split s sep = (if sep = [] then Inl ValueError else Inr (split_from sep [] s))"

text \<open>\<open>xs[i]\<close> for a non-negative index: IndexError when out of range.\<close>

definition getitem :: "'a list \<Rightarrow> nat \<Rightarrow> exn + 'a" where
  "getitem xs i = (if i < length xs then Inr (xs ! i) else Inl IndexError)"

section \<open>The values \<open>json.loads\<close> returns\<close>

text \<open>
  \<open>json.loads\<close> returns \<open>None\<close>, a \<open>bool\<close>, an \<open>int\<close>, a \<open>float\<close>, a \<open>str\<close>,
  a \<open>list\<close> or a \<open>dict\<close>. A float is kept as the text \<open>x\<close> that the decoder hands
  to \<open>float(x)\<close>: the value is a function of that text, so equal texts are equal floats.
  A \<open>dict\<close> is the list of its items in insertion order, with distinct keys.
\<close>

datatype pyval =
    PNone
  | PBool bool
  | PInt int
  | PFloat str
  | PStr str
  | PList "pyval list"
  | PDict "(str \<times> pyval) list"

text \<open>\<open>dict(pairs)\<close>: a later pair with a key already present replaces its value in place.\<close>

definition dict :: "(str \<times> pyval) list \<Rightarrow> (str \<times> pyval) list" where
  "dict pairs = foldl (\<lambda>d (k, v). AList.update k v d) [] pairs"

section \<open>The JSON decoder of the standard library\<close>

text \<open>
  \<open>json.loads\<close> with its default arguments, as \<open>json/decoder.py\<close> and
  \<open>json/scanner.py\<close> (and their C twins) define it. A position \<open>end\<close> in the
  document is the suffix that starts there. Every \<open>JSONDecodeError\<close> is the same
  value: its message and position are not modelled. The interpreter's resource limits
  (the recursion limit, the limit on the digits of an \<open>int\<close>) are not modelled
  either.
\<close>

type_synonym 'a scan = "exn + ('a \<times> str)"

definition is_ws :: "nat \<Rightarrow> bool" where
  "is_ws c = (c = 32 \<or> c = 9 \<or> c = 10 \<or> c = 13)"

definition skip_ws :: "str \<Rightarrow> str" where
  "skip_ws s = dropWhile is_ws s"

definition is_digit :: "nat \<Rightarrow> bool" where
  "is_digit c = (48 \<le> c \<and> c \<le> 57)"

definition hexval :: "nat \<Rightarrow> nat option" where
  "hexval c =
     (if 48 \<le> c \<and> c \<le> 57 then Some (c - 48)
      else if 97 \<le> c \<and> c \<le> 102 then Some (c - 87)
      else if 65 \<le> c \<and> c \<le> 70 then Some (c - 55)
      else None)"

fun decode_uXXXX :: "str \<Rightarrow> nat option" where
  "decode_uXXXX (a # b # c # d # s) =
     (case (hexval a, hexval b, hexval c, hexval d) of
        (Some x, Some y, Some z, Some w) \<Rightarrow> Some (((x * 16 + y) * 16 + z) * 16 + w)
      | _ \<Rightarrow> None)"
| "decode_uXXXX _ = None"

definition BACKSLASH :: "nat \<Rightarrow> nat option" where
  "BACKSLASH esc =
     (if esc = 34 then Some 34
      else if esc = 92 then Some 92
      else if esc = 47 then Some 47
      else if esc = 98 then Some 8
      else if esc = 102 then Some 12
      else if esc = 110 then Some 10
      else if esc = 114 then Some 13
      else if esc = 116 then Some 9
      else None)"

definition append_char :: "nat \<Rightarrow> str scan \<Rightarrow> str scan" where
  "append_char ch r = (case r of Inl e \<Rightarrow> Inl e | Inr (chunks, rest) \<Rightarrow> Inr (ch # chunks, rest))"

text \<open>
  \<open>scanstring(s, end, strict=True)\<close>, from the character after the opening quote:
  the decoded string and the text after the closing quote. A high surrogate escape
  followed by a low surrogate escape is one code point beyond the BMP
  (\<open>((uni - 0xd800) << 10) | (uni2 - 0xdc00)\<close> is a sum, the second part being below
  \<open>2 ^ 10\<close>).
\<close>

function scanstring :: "str \<Rightarrow> str scan" where
  "scanstring [] = Inl JSONDecodeError"
| "scanstring (c # s) =
     (if c = 34 then Inr ([], s)
      else if c = 92 then
        (case s of
           [] \<Rightarrow> Inl JSONDecodeError
         | esc # s1 \<Rightarrow>
             if esc \<noteq> 117 then
               (case BACKSLASH esc of
                  None \<Rightarrow> Inl JSONDecodeError
                | Some ch \<Rightarrow> append_char ch (scanstring s1))
             else
               (case decode_uXXXX s1 of
                  None \<Rightarrow> Inl JSONDecodeError
                | Some uni \<Rightarrow>
                    if 0xd800 \<le> uni \<and> uni \<le> 0xdbff \<and> take 2 (drop 4 s1) = [92, 117] then
                      (case decode_uXXXX (drop 6 s1) of
                         None \<Rightarrow> Inl JSONDecodeError
                       | Some uni2 \<Rightarrow>
                           if 0xdc00 \<le> uni2 \<and> uni2 \<le> 0xdfff
                           then append_char (0x10000 + ((uni - 0xd800) * 1024 + (uni2 - 0xdc00)))
                                  (scanstring (drop 10 s1))
                           else append_char uni (scanstring (drop 4 s1)))
                    else append_char uni (scanstring (drop 4 s1))))
      else if c < 32 then Inl JSONDecodeError
      else append_char c (scanstring s))"
  by pat_completeness auto
termination
  by (relation "measure length") auto

text \<open>
  The number pattern \<open>(-?(?:0|[1-9]\d*))(\.\d+)?([eE][-+]?\d+)?\<close>, group by group,
  with the digits \<open>0\<close> to \<open>9\<close> of the C scanner. Each optional group is empty
  when it does not match.
\<close>

definition match_integer :: "str \<Rightarrow> (str \<times> str) option" where
  "match_integer s =
     (let sign = (if take 1 s = [45] then [45] else []);
          s1 = drop (length sign) s
      in case s1 of
           [] \<Rightarrow> None
         | d # s2 \<Rightarrow>
             if d = 48 then Some (sign @ [48], s2)
             else if is_digit d then Some (sign @ takeWhile is_digit s1, dropWhile is_digit s1)
             else None)"

definition match_frac :: "str \<Rightarrow> str \<times> str" where
  "match_frac s =
     (case s of
        c # d # s1 \<Rightarrow>
          if c = 46 \<and> is_digit d
          then (c # takeWhile is_digit (d # s1), dropWhile is_digit (d # s1))
          else ([], s)
      | _ \<Rightarrow> ([], s))"

definition match_exp :: "str \<Rightarrow> str \<times> str" where
  "match_exp s =
     (case s of
        [] \<Rightarrow> ([], s)
      | e # s1 \<Rightarrow>
          if e = 101 \<or> e = 69 then
            (let sign = (if take 1 s1 = [45] \<or> take 1 s1 = [43] then take 1 s1 else []);
                 s2 = drop (length sign) s1
             in case s2 of
                  [] \<Rightarrow> ([], s)
                | d # s3 \<Rightarrow>
                    if is_digit d
                    then (e # sign @ takeWhile is_digit s2, dropWhile is_digit s2)
                    else ([], s))
          else ([], s))"

text \<open>\<open>int(integer)\<close> on the text of group 1: an optional minus sign and decimal digits.\<close>

definition nat_of_digits :: "str \<Rightarrow> nat" where
  "nat_of_digits ds = foldl (\<lambda>a d. 10 * a + (d - 48)) 0 ds"

definition parse_int :: "str \<Rightarrow> int" where
  "parse_int t =
     (if take 1 t = [45] then - int (nat_of_digits (drop 1 t)) else int (nat_of_digits t))"

definition match_number :: "str \<Rightarrow> (pyval \<times> str) option" where
  "match_number s =
     (case match_integer s of
        None \<Rightarrow> None
      | Some (integer, s1) \<Rightarrow>
          (case match_frac s1 of (frac, s2) \<Rightarrow>
            (case match_exp s2 of (exp, s3) \<Rightarrow>
               if frac \<noteq> [] \<or> exp \<noteq> []
               then Some (PFloat (integer @ frac @ exp), s3)
               else Some (PInt (parse_int integer), s3))))"

text \<open>
  \<open>scan_once\<close>, \<open>JSONArray\<close> and \<open>JSONObject\<close> call each other. The first
  argument bounds the calls still allowed, and \<open>None\<close> says the bound was reached;
  \<open>loads\<close> below starts with a bound that is never reached.
  \<open>array_loop\<close> is the \<open>while True\<close> of \<open>JSONArray\<close>, entered at a value;
  \<open>object_loop\<close> is the one of \<open>JSONObject\<close>, entered after the opening quote of
  a key. \<open>StopIteration\<close> becomes \<open>JSONDecodeError\<close> in every caller, so
  \<open>scan_once\<close> returns that at once.
\<close>

fun scan_once :: "nat \<Rightarrow> str \<Rightarrow> pyval scan option"
  and array_loop :: "nat \<Rightarrow> str \<Rightarrow> pyval list \<Rightarrow> pyval scan option"
  and object_loop :: "nat \<Rightarrow> str \<Rightarrow> (str \<times> pyval) list \<Rightarrow> pyval scan option"
where
  "scan_once 0 s = None"
| "scan_once (Suc n) s =
     (case s of
        [] \<Rightarrow> Some (Inl JSONDecodeError)
      | c # cs \<Rightarrow>
          if c = 34 then
            Some (case scanstring cs of Inl e \<Rightarrow> Inl e | Inr (t, r) \<Rightarrow> Inr (PStr t, r))
          else if c = 123 then
            (case skip_ws cs of
               [] \<Rightarrow> Some (Inl JSONDecodeError)
             | d # r \<Rightarrow>
                 if d = 125 then Some (Inr (PDict [], r))
                 else if d = 34 then object_loop n r []
                 else Some (Inl JSONDecodeError))
          else if c = 91 then
            (case skip_ws cs of
               [] \<Rightarrow> array_loop n [] []
             | d # r \<Rightarrow>
                 if d = 93 then Some (Inr (PList [], r))
                 else array_loop n (d # r) [])
          else if c = 110 \<and> take 4 s = str_of ''null'' then Some (Inr (PNone, drop 4 s))
          else if c = 116 \<and> take 4 s = str_of ''true'' then Some (Inr (PBool True, drop 4 s))
          else if c = 102 \<and> take 5 s = str_of ''false'' then Some (Inr (PBool False, drop 5 s))
          else
            (case match_number s of
               Some (res, r) \<Rightarrow> Some (Inr (res, r))
             | None \<Rightarrow>
                 if c = 78 \<and> take 3 s = str_of ''NaN''
                 then Some (Inr (PFloat (str_of ''nan''), drop 3 s))
                 else if c = 73 \<and> take 8 s = str_of ''Infinity''
                 then Some (Inr (PFloat (str_of ''inf''), drop 8 s))
                 else if c = 45 \<and> take 9 s = str_of ''-Infinity''
                 then Some (Inr (PFloat (str_of ''-inf''), drop 9 s))
                 else Some (Inl JSONDecodeError)))"
| "array_loop 0 s values = None"
| "array_loop (Suc n) s values =
     (case scan_once n s of
        None \<Rightarrow> None
      | Some (Inl e) \<Rightarrow> Some (Inl e)
      | Some (Inr (v, r)) \<Rightarrow>
          (case skip_ws r of
             [] \<Rightarrow> Some (Inl JSONDecodeError)
           | d # r1 \<Rightarrow>
               if d = 93 then Some (Inr (PList (values @ [v]), r1))
               else if d \<noteq> 44 then Some (Inl JSONDecodeError)
               else array_loop n (skip_ws r1) (values @ [v])))"
| "object_loop 0 s pairs = None"
| "object_loop (Suc n) s pairs =
     (case scanstring s of
        Inl e \<Rightarrow> Some (Inl e)
      | Inr (key, r) \<Rightarrow>
          (case skip_ws r of
             [] \<Rightarrow> Some (Inl JSONDecodeError)
           | d # r1 \<Rightarrow>
               if d \<noteq> 58 then Some (Inl JSONDecodeError)
               else
                 (case scan_once n (skip_ws r1) of
                    None \<Rightarrow> None
                  | Some (Inl e) \<Rightarrow> Some (Inl e)
                  | Some (Inr (v, r2)) \<Rightarrow>
                      (case skip_ws r2 of
                         [] \<Rightarrow> Some (Inl JSONDecodeError)
                       | d2 # r3 \<Rightarrow>
                           if d2 = 125 then Some (Inr (PDict (dict (pairs @ [(key, v)])), r3))
                           else if d2 \<noteq> 44 then Some (Inl JSONDecodeError)
                           else
                             (case skip_ws r3 of
                                [] \<Rightarrow> Some (Inl JSONDecodeError)
                              | q # r4 \<Rightarrow>
                                  if q = 34 then object_loop n r4 (pairs @ [(key, v)])
                                  else Some (Inl JSONDecodeError))))))"

text \<open>
  \<open>json.loads(s)\<close> for a \<open>str\<close>: a leading byte order mark is refused, then
  \<open>JSONDecoder.decode\<close> skips white space, scans one value, skips white space and
  wants the end of the text (``Extra data'' otherwise).
\<close>

definition loads :: "str \<Rightarrow> exn + pyval" where
  "loads s =
     (if startswith s [0xfeff] then Inl JSONDecodeError
      else
        (case scan_once (2 * length s + 2) (skip_ws s) of
           None \<Rightarrow> Inl RecursionError
         | Some (Inl e) \<Rightarrow> Inl e
         | Some (Inr (obj, r)) \<Rightarrow> if skip_ws r = [] then Inr obj else Inl JSONDecodeError))"

section \<open>The response decoder: lines 43 to 51 of \<open>generate_flashcards\<close>\<close>

definition fence :: str where
  "fence = [96, 96, 96]"

text \<open>
  Lines 46 to 49: when the trimmed text starts with three backticks, it is replaced by
  piece 1 of its split at every run of three backticks, less a leading \<open>json\<close>.
\<close>

definition strip_fence :: "str \<Rightarrow> exn + str" where
  "strip_fence response_text =
     (if startswith response_text fence then
        (case split response_text fence of
           Inl e \<Rightarrow> Inl e
         | Inr pieces \<Rightarrow>
             (case getitem pieces 1 of
                Inl e \<Rightarrow> Inl e
              | Inr t \<Rightarrow> Inr (if startswith t (str_of ''json'') then drop 4 t else t)))
      else Inr response_text)"

definition decode_response :: "str \<Rightarrow> exn + pyval" where
  "decode_response raw =
     (case strip_fence (strip raw) of
        Inl e \<Rightarrow> Inl e
      | Inr response_text \<Rightarrow> loads response_text)"

section \<open>The prompt: lines 20 to 39\<close>

text \<open>\<open>str(i)\<close> for an \<open>int\<close>, which is what an f-string puts for \<open>{num_cards}\<close>.\<close>

fun dec_digits :: "nat \<Rightarrow> str" where
  "dec_digits n = (if n < 10 then [48 + n] else dec_digits (n div 10) @ [48 + n mod 10])"

declare dec_digits.simps [simp del]

definition str_int :: "int \<Rightarrow> str" where
  "str_int i = (if i < 0 then 45 # dec_digits (nat (- i)) else dec_digits (nat i))"

definition nl :: str where
  "nl = [10]"

definition build_prompt :: "str \<Rightarrow> int \<Rightarrow> str" where
  "build_prompt text num_cards =
     nl @ str_of ''    You are an expert educator. Analyze the following text and create ''
        @ str_int num_cards @ str_of '' flashcards.''
     @ nl @ str_of ''    ''
     @ nl @ str_of ''    TEXT:''
     @ nl @ str_of ''    '' @ text
     @ nl @ str_of ''    ''
     @ nl @ str_of ''    INSTRUCTIONS:''
     @ nl @ str_of ''    - Create clear, concise questions that test understanding''
     @ nl @ str_of ''    - Provide accurate, complete answers''
     @ nl @ str_of ''    - Cover key concepts from the text''
     @ nl @ str_of ''    - Make questions varied (definitions, concepts, applications)''
     @ nl @ str_of ''    ''
     @ nl @ str_of ''    OUTPUT FORMAT (JSON only, no markdown):''
     @ nl @ str_of ''    [''
     @ nl @ str_of ''        {\"question\": \"What is...?\", \"answer\": \"...\"},''
     @ nl @ str_of ''        {\"question\": \"Explain...\", \"answer\": \"...\"}''
     @ nl @ str_of ''    ]''
     @ nl @ str_of ''    ''
     @ nl @ str_of ''    Generate exactly '' @ str_int num_cards
        @ str_of '' flashcards in valid JSON format.''
     @ nl @ str_of ''    ''"

section \<open>\<open>generate_flashcards\<close>\<close>

text \<open>
  What the user sees and what the program does to the world, in order. The provider is
  a function from the prompt to the text of its response (\<open>response.text\<close>), or to
  the exception that the call or the access raises. The text of an exception inside a
  message is not modelled.
\<close>

datatype event =
    Generate_content str
  | St_warning str
  | St_error_parsing
  | St_error_generating
  | St_spinner str
  | St_success str
  | St_subheader str
  | St_expander str
  | St_markdown str
  | St_info str
  | Makedirs str
  | To_csv str
  | Json_dump str
  | Download_button str str
  | Uncaught exn
  | Unmodelled

definition on_exception :: "exn \<Rightarrow> event" where
  "on_exception e = (if e = JSONDecodeError then St_error_parsing else St_error_generating)"

definition generate_flashcards :: "(str \<Rightarrow> exn + str) \<Rightarrow> str \<Rightarrow> int \<Rightarrow> pyval \<times> event list" where
  "generate_flashcards generate_content text num_cards =
     (let prompt = build_prompt text num_cards in
      case generate_content prompt of
        Inl e \<Rightarrow> (PNone, [Generate_content prompt, on_exception e])
      | Inr raw \<Rightarrow>
          (case decode_response raw of
             Inl e \<Rightarrow> (PNone, [Generate_content prompt, on_exception e])
           | Inr flashcards \<Rightarrow> (flashcards, [Generate_content prompt])))"

section \<open>The JSON export: \<open>json.dump(flashcards, f, indent=2)\<close>\<close>

text \<open>
  \<open>encode_basestring_ascii\<close>: printable ASCII but the quote and the backslash
  stands for itself, the rest is escaped, beyond the BMP as a surrogate pair
  (\<open>0xd800 | ((n >> 10) & 0x3ff)\<close> and \<open>0xdc00 | (n & 0x3ff)\<close>, written with
  \<open>div\<close> and \<open>mod\<close>). \<open>hex4\<close> is \<open>'{0:04x}'.format\<close> on a number below
  \<open>0x10000\<close>.
\<close>

definition hexdigit :: "nat \<Rightarrow> nat" where
  "hexdigit d = (if d < 10 then 48 + d else 87 + d)"

definition hex4 :: "nat \<Rightarrow> str" where
  "hex4 n =
     [hexdigit (n div 4096 mod 16), hexdigit (n div 256 mod 16), hexdigit (n div 16 mod 16),
      hexdigit (n mod 16)]"

definition escape_ascii :: "nat \<Rightarrow> str" where
  "escape_ascii c =
     (if c = 92 then [92, 92]
      else if c = 34 then [92, 34]
      else if 32 \<le> c \<and> c \<le> 126 then [c]
      else if c = 8 then [92, 98]
      else if c = 12 then [92, 102]
      else if c = 10 then [92, 110]
      else if c = 13 then [92, 114]
      else if c = 9 then [92, 116]
      else if c < 0x10000 then [92, 117] @ hex4 c
      else
        (let n = c - 0x10000;
             s1 = 0xd800 + (n div 1024) mod 1024;
             s2 = 0xdc00 + n mod 1024
         in [92, 117] @ hex4 s1 @ [92, 117] @ hex4 s2))"

definition encode_basestring_ascii :: "str \<Rightarrow> str" where
  "encode_basestring_ascii s = 34 # concat (map escape_ascii s) @ [34]"

text \<open>
  \<open>_iterencode\<close> with \<open>indent=2\<close>, hence the separators \<open>,\<close> and \<open>: \<close>, at
  the indent level \<open>lvl\<close>; the chunks it yields are joined, as writing them to the
  file does. \<open>floatstr\<close> stands for \<open>float.__repr__\<close> of \<open>float(x)\<close>, which is
  floating point and stays a parameter.
\<close>

definition newline_indent :: "nat \<Rightarrow> str" where
  "newline_indent lvl = 10 # replicate (2 * lvl) 32"

fun join :: "str \<Rightarrow> str list \<Rightarrow> str" where
  "join sep [] = []"
| "join sep [x] = x"
| "join sep (x # y # ys) = x @ sep @ join sep (y # ys)"

fun iterencode :: "(str \<Rightarrow> str) \<Rightarrow> nat \<Rightarrow> pyval \<Rightarrow> str" where
  "iterencode floatstr lvl (PStr s) = encode_basestring_ascii s"
| "iterencode floatstr lvl PNone = str_of ''null''"
| "iterencode floatstr lvl (PBool b) = (if b then str_of ''true'' else str_of ''false'')"
| "iterencode floatstr lvl (PInt i) = str_int i"
| "iterencode floatstr lvl (PFloat x) = floatstr x"
| "iterencode floatstr lvl (PList lst) =
     (if lst = [] then str_of ''[]''
      else [91] @ newline_indent (lvl + 1)
           @ join ([44] @ newline_indent (lvl + 1)) (map (iterencode floatstr (lvl + 1)) lst)
           @ newline_indent lvl @ [93])"
| "iterencode floatstr lvl (PDict dct) =
     (if dct = [] then str_of ''{}''
      else [123] @ newline_indent (lvl + 1)
           @ join ([44] @ newline_indent (lvl + 1))
               (map (\<lambda>(key, v). encode_basestring_ascii key @ [58, 32]
                                  @ iterencode floatstr (lvl + 1) v) dct)
           @ newline_indent lvl @ [125])"

definition json_dump_indent2 :: "(str \<Rightarrow> str) \<Rightarrow> pyval \<Rightarrow> str" where
  "json_dump_indent2 floatstr obj = iterencode floatstr 0 obj"

text \<open>A flashcard of the data model, and the \<open>dict\<close> that holds it in the program.\<close>

record flashcard =
  question :: str
  answer :: str

definition card_dict :: "flashcard \<Rightarrow> pyval" where
  "card_dict c =
     PDict [(str_of ''question'', PStr (question c)), (str_of ''answer'', PStr (answer c))]"

definition flashcards_list :: "flashcard list \<Rightarrow> pyval" where
  "flashcards_list cs = PList (map card_dict cs)"

section \<open>\<open>save_flashcards\<close> and \<open>main\<close>\<close>

text \<open>
  \<open>save_flashcards\<close>: the directory is made when it is missing, then the two files
  are written. What pandas writes is not modelled; what \<open>json.dump\<close> writes is
  \<open>json_dump_indent2\<close> above.
\<close>

definition save_flashcards :: "bool \<Rightarrow> str \<Rightarrow> event list \<times> str \<times> str" where
  "save_flashcards dir_exists filename =
     (let csv_path = str_of ''flashcards/'' @ filename @ str_of ''.csv'';
          json_path = str_of ''flashcards/'' @ filename @ str_of ''.json''
      in ((if dir_exists then [] else [Makedirs (str_of ''flashcards'')])
          @ [To_csv csv_path, Json_dump json_path], csv_path, json_path))"

text \<open>
  The truth value of \<open>if flashcards:\<close>. \<open>float(x)\<close> is zero when the decimal
  \<open>x\<close> is at most \<open>2 ^ -1075\<close> in magnitude (half of the least positive double,
  which rounds to even).
\<close>

definition float_is_zero :: "str \<Rightarrow> bool" where
  "float_is_zero x =
     (let mant = takeWhile (\<lambda>c. c \<noteq> 101 \<and> c \<noteq> 69) x;
          etxt = drop 1 (dropWhile (\<lambda>c. c \<noteq> 101 \<and> c \<noteq> 69) x);
          ipart = takeWhile (\<lambda>c. c \<noteq> 46) mant;
          fpart = drop 1 (dropWhile (\<lambda>c. c \<noteq> 46) mant);
          m = nat_of_digits (filter is_digit ipart @ fpart);
          e = (if etxt = [] then 0 else parse_int (if take 1 etxt = [43] then drop 1 etxt else etxt))
              - int (length fpart)
      in m = 0 \<or> (e < 0 \<and> m * 2 ^ 1075 \<le> 10 ^ nat (- e)))"

fun truthy :: "pyval \<Rightarrow> bool" where
  "truthy PNone = False"
| "truthy (PBool b) = b"
| "truthy (PInt i) = (i \<noteq> 0)"
| "truthy (PFloat x) =
     (if x = str_of ''nan'' \<or> x = str_of ''inf'' \<or> x = str_of ''-inf'' then True
      else if float_is_zero x then False else True)"
| "truthy (PStr s) = (s \<noteq> [])"
| "truthy (PList lst) = (lst \<noteq> [])"
| "truthy (PDict dct) = (dct \<noteq> [])"

text \<open>\<open>len(flashcards)\<close> and the items a \<open>for\<close> loop over the value visits.\<close>

fun len :: "pyval \<Rightarrow> exn + nat" where
  "len (PStr s) = Inr (length s)"
| "len (PList lst) = Inr (length lst)"
| "len (PDict dct) = Inr (length dct)"
| "len _ = Inl TypeError"

fun items :: "pyval \<Rightarrow> pyval list" where
  "items (PStr s) = map (\<lambda>c. PStr [c]) s"
| "items (PList lst) = lst"
| "items (PDict dct) = map (\<lambda>(k, v). PStr k) dct"
| "items _ = []"

text \<open>\<open>card[key]\<close> with a string key: only a \<open>dict\<close> takes one.\<close>

fun subscript :: "pyval \<Rightarrow> str \<Rightarrow> exn + pyval" where
  "subscript (PDict dct) key = (case map_of dct key of None \<Rightarrow> Inl KeyError | Some v \<Rightarrow> Inr v)"
| "subscript _ key = Inl TypeError"

text \<open>
  The body of the display loop for card \<open>i\<close> (\<open>crd\<close>): its events, and whether the run goes
  on. A question or an answer that is not a \<open>str\<close> ends the model of the run with
  \<open>Unmodelled\<close>; an exception ends it with \<open>Uncaught\<close>, since \<open>main\<close> catches
  nothing.
\<close>

definition show_card :: "nat \<Rightarrow> pyval \<Rightarrow> event list \<times> bool" where
  "show_card i crd =
     (case subscript crd (str_of ''question'') of
        Inl e \<Rightarrow> ([Uncaught e], False)
      | Inr (PStr q) \<Rightarrow>
          (let head = [St_expander (str_of ''Flashcard '' @ str_int (int i) @ str_of '': ''
                                     @ take 60 q @ str_of ''...''),
                       St_markdown (str_of ''**Question:**''), St_info q,
                       St_markdown (str_of ''**Answer:**'')]
           in case subscript crd (str_of ''answer'') of
                Inl e \<Rightarrow> (head @ [Uncaught e], False)
              | Inr (PStr a) \<Rightarrow> (head @ [St_success a], True)
              | Inr _ \<Rightarrow> (head @ [Unmodelled], False))
      | Inr _ \<Rightarrow> ([Unmodelled], False))"

fun show_cards :: "nat \<Rightarrow> pyval list \<Rightarrow> event list \<times> bool" where
  "show_cards i [] = ([], True)"
| "show_cards i (crd # cards) =
     (case show_card i crd of
        (ev, False) \<Rightarrow> (ev, False)
      | (ev, True) \<Rightarrow> (case show_cards (i + 1) cards of (ev', ok) \<Rightarrow> (ev @ ev', ok)))"

text \<open>
  Lines 118 to 159: what \<open>main\<close> does with the value \<open>generate_flashcards\<close>
  returned. \<open>timestamp\<close> is \<open>datetime.now().strftime("%Y%m%d_%H%M%S")\<close>.
\<close>

definition show_result :: "bool \<Rightarrow> str \<Rightarrow> pyval \<Rightarrow> event list" where
  "show_result dir_exists timestamp flashcards =
     (if truthy flashcards then
        (case len flashcards of
           Inl e \<Rightarrow> [Uncaught e]
         | Inr n \<Rightarrow>
             [St_success ([0x2705] @ str_of '' Generated '' @ str_int (int n)
                          @ str_of '' flashcards!''),
              St_subheader ([0x1f4da] @ str_of '' Your Flashcards'')]
             @ (case show_cards 1 (items flashcards) of
                  (ev, False) \<Rightarrow> ev
                | (ev, True) \<Rightarrow>
                    (let filename = str_of ''flashcards_'' @ timestamp in
                     case save_flashcards dir_exists filename of
                       (saved, csv_path, json_path) \<Rightarrow>
                         ev @ saved
                         @ [St_subheader ([0x1f4be] @ str_of '' Download Your Flashcards''),
                            Download_button csv_path (filename @ str_of ''.csv''),
                            Download_button json_path (filename @ str_of ''.json''),
                            St_info ([0x2705] @ str_of '' Files saved in 'flashcards/' folder'')])))
      else [])"

text \<open>
  Lines 111 to 116: the button was pressed with \<open>text_input\<close> in the text area (or
  the sample text) and \<open>num_cards\<close> in the number input.
\<close>

definition generate_button :: "(str \<Rightarrow> exn + str) \<Rightarrow> bool \<Rightarrow> str \<Rightarrow> str \<Rightarrow> int \<Rightarrow> event list" where
  "generate_button generate_content dir_exists timestamp text_input num_cards =
     (if text_input = [] \<or> length text_input < 50 then
        [St_warning ([0x26a0, 0xfe0f]
                     @ str_of '' Please enter at least 50 characters of study material.'')]
      else
        (case generate_flashcards generate_content text_input num_cards of
           (flashcards, ev) \<Rightarrow>
             [St_spinner ([0x1f916] @ str_of '' AI is creating your flashcards...'')]
             @ ev @ show_result dir_exists timestamp flashcards))"

section \<open>Auxiliary notions for the proofs\<close>

text \<open>A text that cannot continue a number: it is empty or starts outside \<open>0-9.eE+-\<close>.\<close>

definition number_stop :: "str \<Rightarrow> bool" where
  "number_stop t =
     (case t of [] \<Rightarrow> True
      | c # _ \<Rightarrow> \<not> is_digit c \<and> c \<noteq> 46 \<and> c \<noteq> 101 \<and> c \<noteq> 69 \<and> c \<noteq> 43 \<and> c \<noteq> 45)"

section \<open>Evaluating the model on a concrete text\<close>

text \<open>
  The equations of the scanner at a numeral bound, and the definitions the simplifier
  unfolds to run the decoder on a given text.
\<close>

lemmas scan_numeral =
  scan_once.simps(2) [of "pred_numeral k", folded numeral_eq_Suc]
  array_loop.simps(2) [of "pred_numeral k", folded numeral_eq_Suc]
  object_loop.simps(2) [of "pred_numeral k", folded numeral_eq_Suc]
  for k

lemmas run_defs =
  str_of_def strip_def lstrip_def rstrip_def isspace_def startswith_def strip_fence_def
  decode_response_def loads_def skip_ws_def is_ws_def is_digit_def match_number_def
  match_integer_def match_frac_def match_exp_def parse_int_def nat_of_digits_def fence_def
  split_def getitem_def scan_numeral append_char_def BACKSLASH_def hexval_def dict_def




section \<open>White space only\<close>

lemma strip_all_space: "\<forall>c\<in>set s. isspace c \<Longrightarrow> strip s = []"
  by (auto simp: strip_def lstrip_def rstrip_def dest: set_dropWhileD)

lemma loads_Nil: "loads [] = Inl JSONDecodeError"
  by (simp add: loads_def startswith_def skip_ws_def)

lemma strip_fence_Nil: "strip_fence [] = Inr []"
  by (simp add: strip_fence_def startswith_def fence_def)

text \<open>
  Claim C6: a raw response that is empty or holds only white space (every character
  is one \<open>strip\<close> removes) makes the decoder fail with \<open>JSONDecodeError\<close>.
\<close>

theorem whitespace_response_decode_error:
  "\<forall>c\<in>set raw. isspace c \<Longrightarrow> decode_response raw = Inl JSONDecodeError"
  by (simp add: decode_response_def strip_all_space strip_fence_Nil loads_Nil)

theorem whitespace_response_decode_error_witness:
  "isspace 32 \<and> isspace 10 \<and> isspace 9 \<and> isspace 160
   \<and> decode_response [32, 10, 9, 160] = Inl JSONDecodeError
   \<and> decode_response [] = Inl JSONDecodeError"
  using whitespace_response_decode_error [of "[32, 10, 9, 160]"]
    whitespace_response_decode_error [of "[]"]
  by (simp add: isspace_def)

section \<open>The prompt\<close>

lemma nat_of_digits_snoc: "nat_of_digits (ds @ [d]) = 10 * nat_of_digits ds + (d - 48)"
  by (simp add: nat_of_digits_def)

lemma nat_of_digits_dec_digits: "nat_of_digits (dec_digits n) = n"
proof (induction n rule: dec_digits.induct)
  case (1 n)
  show ?case
  proof (cases "n < 10")
    case True
    then show ?thesis by (simp add: dec_digits.simps [of n] nat_of_digits_def)
  next
    case False
    with 1 show ?thesis
      by (simp add: dec_digits.simps [of n] nat_of_digits_snoc)
  qed
qed

lemma dec_digits_digits: "\<forall>c\<in>set (dec_digits n). is_digit c"
proof (induction n rule: dec_digits.induct)
  case (1 n)
  show ?case
  proof (cases "n < 10")
    case True
    then show ?thesis by (simp add: dec_digits.simps [of n] is_digit_def)
  next
    case False
    with 1 show ?thesis
      by (simp add: dec_digits.simps [of n] is_digit_def)
  qed
qed

lemma dec_digits_not_Nil: "dec_digits n \<noteq> []"
  by (simp add: dec_digits.simps [of n])

text \<open>\<open>str_int\<close> writes the decimal numeral of its argument: \<open>int\<close> reads it back.\<close>

lemma parse_int_str_int: "parse_int (str_int i) = i"
proof (cases "i < 0")
  case True
  then show ?thesis
    by (simp add: parse_int_def str_int_def nat_of_digits_dec_digits)
next
  case False
  have "hd (dec_digits (nat i)) \<noteq> 45"
    using dec_digits_digits [of "nat i"] dec_digits_not_Nil [of "nat i"]
    by (cases "dec_digits (nat i)") (auto simp: is_digit_def)
  then have "take 1 (dec_digits (nat i)) \<noteq> [45]"
    using dec_digits_not_Nil [of "nat i"] by (cases "dec_digits (nat i)") auto
  with False show ?thesis
    by (simp add: parse_int_def str_int_def nat_of_digits_dec_digits)
qed

text \<open>
  Claim C4: the prompt holds the decimal numeral of \<open>num_cards\<close> and the source text
  verbatim, each as a contiguous part. The template is a pure string: this holds for
  every count and every text, the counts from 1 to 200 and the texts of 50 characters
  or more among them.
\<close>

theorem prompt_contains_count_and_text:
  "sublist (str_int num_cards) (build_prompt text num_cards)
   \<and> sublist text (build_prompt text num_cards)"
proof
  have "build_prompt text num_cards =
          (nl @ str_of ''    You are an expert educator. Analyze the following text and create '')
          @ str_int num_cards
          @ drop (length (nl @ str_of ''    You are an expert educator. Analyze the following text and create ''
                          @ str_int num_cards))
              (build_prompt text num_cards)"
    by (simp add: build_prompt_def)
  then show "sublist (str_int num_cards) (build_prompt text num_cards)"
    using sublist_appendI by metis
  have "build_prompt text num_cards =
          (nl @ str_of ''    You are an expert educator. Analyze the following text and create ''
              @ str_int num_cards @ str_of '' flashcards.''
           @ nl @ str_of ''    ''
           @ nl @ str_of ''    TEXT:''
           @ nl @ str_of ''    '')
          @ text
          @ drop (length (nl @ str_of ''    You are an expert educator. Analyze the following text and create ''
                            @ str_int num_cards @ str_of '' flashcards.''
                          @ nl @ str_of ''    ''
                          @ nl @ str_of ''    TEXT:''
                          @ nl @ str_of ''    '' @ text))
              (build_prompt text num_cards)"
    by (simp add: build_prompt_def)
  then show "sublist text (build_prompt text num_cards)"
    using sublist_appendI by metis
qed

theorem prompt_contains_count_and_text_witness:
  "sublist (str_of ''200'') (build_prompt (replicate 50 120) 200)
   \<and> sublist (replicate 50 120) (build_prompt (replicate 50 120) 200)"
proof -
  have "str_int 200 = str_of ''200''"
    by (simp add: str_int_def dec_digits.simps str_of_def)
  then show ?thesis
    using prompt_contains_count_and_text [of 200 "replicate 50 120"] by simp
qed

section \<open>Validation before the pipeline\<close>

text \<open>
  Claim C5: with fewer than 50 characters of source text (the empty text included),
  pressing the button shows the warning and nothing else: \<open>generate_flashcards\<close> is
  not entered and the provider is not called.
\<close>

theorem short_text_rejected:
  "length text_input < 50 \<Longrightarrow>
     generate_button generate_content dir_exists timestamp text_input num_cards
       = [St_warning ([0x26a0, 0xfe0f]
                      @ str_of '' Please enter at least 50 characters of study material.'')]
     \<and> (\<forall>p. Generate_content p
              \<notin> set (generate_button generate_content dir_exists timestamp text_input num_cards))"
  by (simp add: generate_button_def)

theorem short_text_rejected_witness:
  "length (replicate 40 (120::nat)) < 50
   \<and> generate_button (\<lambda>p. Inr (str_of ''[]'')) True (str_of ''20260101_000000'')
        (replicate 40 120) 3
       = [St_warning ([0x26a0, 0xfe0f]
                      @ str_of '' Please enter at least 50 characters of study material.'')]
   \<and> generate_button (\<lambda>p. Inr (str_of ''[]'')) True (str_of ''20260101_000000'') [] 3
       = [St_warning ([0x26a0, 0xfe0f]
                      @ str_of '' Please enter at least 50 characters of study material.'')]"
  using short_text_rejected [of "replicate 40 120" "\<lambda>p. Inr (str_of ''[]'')" True
      "str_of ''20260101_000000''" 3]
    short_text_rejected [of "[]" "\<lambda>p. Inr (str_of ''[]'')" True "str_of ''20260101_000000''" 3]
  by simp

section \<open>What the decoder returns\<close>






section \<open>An empty array\<close>



section \<open>Fence stripping\<close>

lemma startswith_append_self: "startswith (p @ s) p"
  by (simp add: startswith_def)

lemma startswith_sublist:
  assumes "startswith (m @ sep @ rest) sep" "m \<noteq> []" "sep \<noteq> []"
  shows "sublist sep (m @ butlast sep)"
proof -
  have len: "length sep \<le> length (m @ butlast sep)"
    using assms(2,3) by (cases m) auto
  have "take (length sep) (m @ butlast sep) = take (length sep) (m @ sep @ rest)"
  proof -
    have "m @ sep @ rest = (m @ butlast sep) @ (last sep # rest)"
      using assms(3) by simp
    then show ?thesis using len by (metis append_eq_conv_conj take_append order_refl take_all_iff le_refl take_take min.absorb1 append_take_drop_id)
  qed
  then have "take (length sep) (m @ butlast sep) = sep"
    using assms(1) by (simp add: startswith_def)
  then have "prefix sep (m @ butlast sep)"
    by (metis take_is_prefix)
  then show ?thesis by (rule prefix_imp_sublist)
qed

lemma split_from_first:
  "sep \<noteq> [] \<Longrightarrow> \<not> sublist sep (m @ butlast sep) \<Longrightarrow>
   split_from sep cur (m @ sep @ rest) = (cur @ m) # split_from sep [] rest"
proof (induction m arbitrary: cur)
  case Nil
  then obtain c cs where sep: "sep = c # cs" by (cases sep) auto
  have "startswith (c # cs @ rest) (c # cs)"
    using startswith_append_self [of "c # cs" rest] by simp
  then show ?case using sep by simp
next
  case (Cons x m)
  have ns: "\<not> startswith ((x # m) @ sep @ rest) sep"
    using startswith_sublist [of "x # m" sep rest] Cons.prems by auto
  have "\<not> sublist sep (m @ butlast sep)"
    using Cons.prems(2) by (metis append_Cons sublist_Cons_right)
  then have "split_from sep (cur @ [x]) (m @ sep @ rest) = ((cur @ [x]) @ m) # split_from sep [] rest"
    using Cons.IH Cons.prems(1) by blast
  then show ?case using ns by simp
qed

lemma split_from_none:
  "\<not> sublist sep m \<Longrightarrow> split_from sep cur m = [cur @ m]"
proof (induction m arbitrary: cur)
  case Nil
  then show ?case by simp
next
  case (Cons x m)
  have "\<not> startswith (x # m) sep"
    using Cons.prems by (metis startswith_def take_is_prefix prefix_imp_sublist)
  moreover have "\<not> sublist sep m"
    using Cons.prems by (metis sublist_Cons_right)
  ultimately show ?case using Cons.IH by simp
qed


lemma split_from_at_sep:
  "sep \<noteq> [] \<Longrightarrow> split_from sep cur (sep @ rest) = cur # split_from sep [] rest"
proof -
  assume ne: "sep \<noteq> []"
  then have "\<not> sublist sep ([] @ butlast sep)"
    using sublist_length_le [of sep "butlast sep"] by (cases sep) auto
  from split_from_first [OF ne this, of cur rest] show ?thesis by simp
qed

lemma fence_not_Nil: "fence \<noteq> []"
  by (simp add: fence_def)

lemma strip_fence_two_fences:
  assumes "\<not> sublist fence (m @ [96, 96])"
  shows "strip_fence (fence @ m @ fence @ rest)
           = Inr (if startswith m (str_of ''json'') then drop 4 m else m)"
proof -
  have b: "butlast fence = [96, 96]" by (simp add: fence_def)
  have "split_from fence [] (fence @ m @ fence @ rest) = [] # split_from fence [] (m @ fence @ rest)"
    by (rule split_from_at_sep [OF fence_not_Nil])
  also have "split_from fence [] (m @ fence @ rest) = m # split_from fence [] rest"
    using split_from_first [of fence m "[]" rest] fence_not_Nil assms b by simp
  finally have "split (fence @ m @ fence @ rest) fence = Inr ([] # m # split_from fence [] rest)"
    using fence_not_Nil by (simp add: split_def)
  then show ?thesis
    by (simp add: strip_fence_def startswith_append_self getitem_def)
qed

text \<open>With no second run the whole rest of the text is kept.\<close>

lemma strip_fence_one_fence:
  assumes "\<not> sublist fence m"
  shows "strip_fence (fence @ m) = Inr (if startswith m (str_of ''json'') then drop 4 m else m)"
proof -
  have "split_from fence [] (fence @ m) = [] # split_from fence [] m"
    by (rule split_from_at_sep [OF fence_not_Nil])
  also have "split_from fence [] m = [m]"
    using split_from_none [OF assms, of "[]"] by simp
  finally have "split (fence @ m) fence = Inr [[], m]"
    using fence_not_Nil by (simp add: split_def)
  then show ?thesis
    using startswith_append_self [of fence m] by (simp add: strip_fence_def getitem_def)
qed

text \<open>
  Claim C10: when the trimmed response starts with a fence, the decoder parses only
  the text \<open>m\<close> between that fence and the next run of three backticks (less a
  leading \<open>json\<close>). Whatever follows the second run is dropped, so a payload that
  holds a run of three backticks itself is cut there before it is parsed. The second
  premise says that the run after \<open>m\<close> is the first one after the opening fence.
\<close>

theorem fence_keeps_first_segment:
  "strip raw = fence @ m @ fence @ rest \<Longrightarrow> \<not> sublist fence (m @ [96, 96]) \<Longrightarrow>
     strip_fence (strip raw) = Inr (if startswith m (str_of ''json'') then drop 4 m else m)
     \<and> decode_response raw = loads (if startswith m (str_of ''json'') then drop 4 m else m)"
  by (simp add: decode_response_def strip_fence_two_fences)

theorem fence_keeps_first_segment_witness:
  "decode_response (str_of ''```json'' @ [10] @ str_of ''[\"a```b\"]'' @ [10] @ fence)
     = loads ([10] @ str_of ''[\"a'')
   \<and> loads ([10] @ str_of ''[\"a'') = Inl JSONDecodeError"
proof -
  have 1: "strip (str_of ''```json'' @ [10] @ str_of ''[\"a```b\"]'' @ [10] @ fence)
             = fence @ (str_of ''json'' @ [10] @ str_of ''[\"a'') @ fence
                 @ (str_of ''b\"]'' @ [10] @ fence)"
    by (simp add: run_defs)
  have 2: "\<not> sublist fence ((str_of ''json'' @ [10] @ str_of ''[\"a'') @ [96, 96])"
    by (simp add: fence_def str_of_def sublist_Cons_right)
  have 3: "loads ([10] @ str_of ''[\"a'') = Inl JSONDecodeError"
    by (simp add: run_defs)
  show ?thesis
    using fence_keeps_first_segment [OF 1 2] 3 by (simp add: run_defs)
qed

section \<open>Properties of the scanner\<close>

lemma skip_ws_length: "length (skip_ws s) \<le> length s"
  by (simp add: skip_ws_def length_dropWhile_le)

lemma skip_ws_append: "skip_ws s \<noteq> [] \<Longrightarrow> skip_ws (s @ t) = skip_ws s @ t"
  by (auto simp: skip_ws_def dropWhile_append dropWhile_eq_Nil_conv)

lemma skip_ws_Cons_not_ws: "skip_ws s = c # r \<Longrightarrow> \<not> is_ws c"
  by (metis skip_ws_def hd_dropWhile list.sel(1) list.distinct(1))

lemma skip_ws_idem: "skip_ws (skip_ws s) = skip_ws s"
  by (metis skip_ws_def dropWhile_idem)

lemma append_char_Inr:
  "append_char ch x = Inr (k, r) \<longleftrightarrow> (\<exists>k'. x = Inr (k', r) \<and> k = ch # k')"
  by (auto simp: append_char_def split: sum.splits)

lemma append_char_Inl: "append_char ch x = Inl e \<longleftrightarrow> x = Inl e"
  by (auto simp: append_char_def split: sum.splits)

lemma scanstring_length: "scanstring s = Inr (k, r) \<Longrightarrow> length r < length s"
proof (induction s arbitrary: k rule: scanstring.induct)
  case 1
  then show ?case by simp
next
  case (2 c s)
  show ?case
    using "2.prems" "2.IH"
    by (auto simp: append_char_Inr split: if_splits list.splits option.splits)
       (fastforce)+
qed

lemma scanstring_error: "scanstring s = Inl e \<Longrightarrow> e = JSONDecodeError"
proof (induction s rule: scanstring.induct)
  case 1
  then show ?case by simp
next
  case (2 c s)
  show ?case
    using "2.prems" "2.IH"
    by (auto simp: append_char_Inl split: if_splits list.splits option.splits)
qed


lemma decode_uXXXX_append: "decode_uXXXX s = Some u \<Longrightarrow> decode_uXXXX (s @ t) = Some u"
  by (induction s rule: decode_uXXXX.induct) auto

lemma decode_uXXXX_length: "decode_uXXXX s = Some u \<Longrightarrow> 4 \<le> length s"
  by (induction s rule: decode_uXXXX.induct) auto

lemma scanstring_take2:
  assumes "scanstring x = Inr (k, r)" "take 2 (x @ t) = [92, 117]"
  shows "take 2 x = [92, 117]"
proof (cases x)
  case Nil
  with assms show ?thesis by simp
next
  case (Cons a y)
  show ?thesis
  proof (cases y)
    case Nil
    with Cons assms show ?thesis by (auto split: if_splits)
  next
    case (Cons b z)
    with \<open>x = a # y\<close> assms show ?thesis by simp
  qed
qed

lemma scanstring_append:
  "scanstring s = Inr (k, r) \<Longrightarrow> scanstring (s @ t) = Inr (k, r @ t)"
proof (induction s arbitrary: k rule: scanstring.induct)
  case 1
  then show ?case by simp
next
  case (2 c s)
  show ?case
  proof (cases "c = 34")
    case True
    with "2.prems" show ?thesis by simp
  next
    case c34: False
    show ?thesis
    proof (cases "c = 92")
      case False
      with c34 "2.prems" "2.IH"(5) show ?thesis
        by (auto simp: append_char_Inr split: if_splits)
    next
      case True
      then obtain esc s1 where s: "s = esc # s1"
        using "2.prems" c34 by (cases s) auto
      show ?thesis
      proof (cases "esc = 117")
        case False
        with True c34 s "2.prems" "2.IH"(1) show ?thesis
          by (auto simp: append_char_Inr split: option.splits)
      next
        case u: True
        then obtain uni where uni: "decode_uXXXX s1 = Some uni"
          using "2.prems" c34 True s by (auto split: option.splits)
        have l4: "4 \<le> length s1" using uni by (rule decode_uXXXX_length)
        have unit: "decode_uXXXX (s1 @ t) = Some uni" using uni by (rule decode_uXXXX_append)
        show ?thesis
        proof (cases "0xd800 \<le> uni \<and> uni \<le> 0xdbff \<and> take 2 (drop 4 s1) = [92, 117]")
          case pair: True
          then obtain uni2 where uni2: "decode_uXXXX (drop 6 s1) = Some uni2"
            using "2.prems" c34 True s u uni by (auto split: option.splits)
          have l10: "10 \<le> length s1" using decode_uXXXX_length [OF uni2] by simp
          have uni2t: "decode_uXXXX (drop 6 s1 @ t) = Some uni2"
            using uni2 by (rule decode_uXXXX_append)
          show ?thesis
          proof (cases "0xdc00 \<le> uni2 \<and> uni2 \<le> 0xdfff")
            case lo: True
            obtain k' where k': "scanstring (drop 10 s1) = Inr (k', r)"
              "k = (0x10000 + ((uni - 0xd800) * 1024 + (uni2 - 0xdc00))) # k'"
              using "2.prems" c34 True s u uni pair uni2 lo
              by (auto simp: append_char_Inr)
            have "scanstring (drop 10 s1 @ t) = Inr (k', r @ t)"
              using "2.IH"(2) c34 True s u uni pair uni2 lo k'(1) by simp
            then show ?thesis
              using c34 True s u unit pair uni2t lo k'(2) l4 l10
              by (simp add: append_char_def)
          next
            case nlo: False
            obtain k' where k': "scanstring (drop 4 s1) = Inr (k', r)" "k = uni # k'"
              using "2.prems" c34 True s u uni pair uni2 nlo
              by (auto simp: append_char_Inr)
            have "scanstring (drop 4 s1 @ t) = Inr (k', r @ t)"
              using "2.IH"(3) c34 True s u uni pair uni2 nlo k'(1) by simp
            then show ?thesis
              using c34 True s u unit pair uni2t nlo k'(2) l4 l10
              by (auto simp: append_char_def)
          qed
        next
          case npair: False
          obtain k' where k': "scanstring (drop 4 s1) = Inr (k', r)" "k = uni # k'"
            using "2.prems" c34 True s u uni npair
            by (auto simp: append_char_Inr)
          have ih: "scanstring (drop 4 s1 @ t) = Inr (k', r @ t)"
            using "2.IH"(4) c34 True s u uni npair k'(1) by simp
          have d4: "drop 4 (s1 @ t) = drop 4 s1 @ t" using l4 by simp
          have "\<not> (0xd800 \<le> uni \<and> uni \<le> 0xdbff \<and> take 2 (drop 4 (s1 @ t)) = [92, 117])"
            unfolding d4 using npair scanstring_take2 [OF k'(1)] by blast
          then have cond:
            "(0xd800 \<le> uni \<and> uni \<le> 0xdbff \<and> take 2 (drop 4 (s1 @ t)) = [92, 117]) = False"
            by blast
          have "scanstring (c # s @ t) = append_char uni (scanstring (drop 4 (s1 @ t)))"
            using c34 True u by (simp add: s unit cond del: take_append drop_append)
          then show ?thesis
            unfolding append_Cons d4 ih k'(2) by (simp only: append_char_def sum.case prod.case)
        qed
      qed
    qed
  qed
qed

lemma takeWhile_digit_stop:
  "number_stop t \<Longrightarrow> takeWhile is_digit (s @ t) = takeWhile is_digit s"
  by (cases t) (auto simp: number_stop_def takeWhile_append takeWhile_eq_all_conv [THEN iffD2])

lemma dropWhile_digit_stop:
  "number_stop t \<Longrightarrow> dropWhile is_digit (s @ t) = dropWhile is_digit s @ t"
  by (cases t) (auto simp: number_stop_def dropWhile_append)

lemma match_integer_append:
  "match_integer s = Some (i, r) \<Longrightarrow> number_stop t \<Longrightarrow> match_integer (s @ t) = Some (i, r @ t)"
  using takeWhile_digit_stop [of t] dropWhile_digit_stop [of t]
  by (cases s) (auto simp: match_integer_def Let_def split: if_splits list.splits)

lemma match_frac_append:
  "match_frac s = (f, r) \<Longrightarrow> number_stop t \<Longrightarrow> match_frac (s @ t) = (f, r @ t)"
  using takeWhile_digit_stop [of t] dropWhile_digit_stop [of t]
  by (cases t) (auto simp: match_frac_def number_stop_def split: if_splits list.splits)

lemma number_stop_hd:
  "number_stop (c # t) \<Longrightarrow> \<not> is_digit c \<and> c \<noteq> 46 \<and> c \<noteq> 101 \<and> c \<noteq> 69 \<and> c \<noteq> 43 \<and> c \<noteq> 45"
  by (simp add: number_stop_def)

lemma match_exp_stop: "number_stop t \<Longrightarrow> match_exp t = ([], t)"
  by (cases t) (auto simp: match_exp_def dest: number_stop_hd)

lemma match_exp_sign_stop:
  assumes "number_stop t" "e = 101 \<or> e = 69"
  shows "match_exp (e # t) = ([], e # t)"
proof (cases t)
  case Nil
  with assms show ?thesis by (auto simp: match_exp_def)
next
  case (Cons c t')
  with assms(1) have "\<not> is_digit c" "c \<noteq> 43" "c \<noteq> 45"
    by (auto dest: number_stop_hd)
  with Cons assms(2) show ?thesis by (auto simp: match_exp_def)
qed

lemma match_exp_append:
  assumes "match_exp s = (x, r)" "number_stop t"
  shows "match_exp (s @ t) = (x, r @ t)"
proof (cases s)
  case Nil
  with assms show ?thesis by (simp add: match_exp_stop) (simp add: match_exp_def)
next
  case (Cons e s1)
  note s = Cons
  show ?thesis
  proof (cases "e = 101 \<or> e = 69")
    case False
    with Cons assms show ?thesis by (auto simp: match_exp_def)
  next
    case e: True
    show ?thesis
    proof (cases s1)
      case Nil
      have "match_exp s = ([], s)" using s Nil e by (auto simp: match_exp_def)
      with assms(1) have "x = []" "r = s" by auto
      then show ?thesis
        using match_exp_sign_stop [OF assms(2) e] s Nil by simp
    next
      case (Cons c s1')
      note s1 = Cons
      show ?thesis
      proof (cases s1')
        case Nil
        show ?thesis
        proof (cases "is_digit c")
          case True
          then have c: "c \<noteq> 45" "c \<noteq> 43" by (auto simp: is_digit_def)
          have tw: "takeWhile is_digit (c # t) = [c]" "dropWhile is_digit (c # t) = t"
            using takeWhile_digit_stop [OF assms(2), of "[c]"]
              dropWhile_digit_stop [OF assms(2), of "[c]"] True
            by simp_all
          have "match_exp s = ([e, c], [])"
            using s s1 Nil e True c by (auto simp: match_exp_def Let_def)
          with assms(1) have xr: "x = [e, c]" "r = []" by auto
          have "match_exp (e # c # t) = ([e, c], t)"
            using e True c by (simp add: match_exp_def Let_def tw del: takeWhile.simps dropWhile.simps)
          then show ?thesis by (simp add: xr s s1 Nil)
        next
          case False
          have "match_exp s = ([], s)"
            using s s1 Nil e False by (auto simp: match_exp_def Let_def)
          with assms(1) have xr: "x = []" "r = s" by auto
          have "match_exp (e # c # t) = ([], e # c # t)"
          proof (cases t)
            case Nil
            then show ?thesis using e False by (auto simp: match_exp_def Let_def)
          next
            case (Cons d t')
            then have "\<not> is_digit d" "d \<noteq> 43" "d \<noteq> 45"
              using assms(2) by (auto dest: number_stop_hd)
            then show ?thesis using e Cons False by (auto simp: match_exp_def Let_def)
          qed
          then show ?thesis using xr s s1 Nil by simp
        qed
      next
        case (Cons d s3)
        have tw: "takeWhile is_digit (d # s3 @ t) = takeWhile is_digit (d # s3)"
          "takeWhile is_digit (c # d # s3 @ t) = takeWhile is_digit (c # d # s3)"
          "dropWhile is_digit (d # s3 @ t) = dropWhile is_digit (d # s3) @ t"
          "dropWhile is_digit (c # d # s3 @ t) = dropWhile is_digit (c # d # s3) @ t"
          using takeWhile_digit_stop [OF assms(2), of "d # s3"]
            takeWhile_digit_stop [OF assms(2), of "c # d # s3"]
            dropWhile_digit_stop [OF assms(2), of "d # s3"]
            dropWhile_digit_stop [OF assms(2), of "c # d # s3"]
          by simp_all
        have "match_exp (e # c # d # s3 @ t)
                = (fst (match_exp (e # c # d # s3)), snd (match_exp (e # c # d # s3)) @ t)"
          using e by (simp add: match_exp_def Let_def tw del: takeWhile.simps dropWhile.simps)
        then show ?thesis using assms(1) s s1 Cons by simp
      qed
    qed
  qed
qed

lemma match_number_append:
  "match_number s = Some (v, r) \<Longrightarrow> number_stop t \<Longrightarrow> match_number (s @ t) = Some (v, r @ t)"
  by (auto simp: match_number_def match_integer_append match_frac_append match_exp_append
           split: option.splits prod.splits if_splits)


lemma match_integer_split: "match_integer s = Some (i, r) \<Longrightarrow> s = i @ r \<and> i \<noteq> []"
proof (cases s)
  case Nil
  assume "match_integer s = Some (i, r)"
  with Nil show ?thesis by (simp add: match_integer_def)
next
  case (Cons c s1)
  assume m: "match_integer s = Some (i, r)"
  show ?thesis
  proof (cases "c = 45")
    case True
    with m Cons show ?thesis
      by (cases s1) (auto simp: match_integer_def Let_def split: if_splits)
  next
    case False
    with m Cons show ?thesis
      by (auto simp: match_integer_def Let_def split: if_splits)
  qed
qed

lemma match_frac_split: "match_frac s = (f, r) \<Longrightarrow> s = f @ r"
  by (auto simp: match_frac_def split: list.splits if_splits)

lemma match_exp_split: "match_exp s = (x, r) \<Longrightarrow> s = x @ r"
proof (cases s)
  case Nil
  assume "match_exp s = (x, r)"
  with Nil show ?thesis by (simp add: match_exp_def)
next
  case (Cons e s1)
  assume m: "match_exp s = (x, r)"
  show ?thesis
  proof (cases s1)
    case Nil
    with m Cons show ?thesis by (auto simp: match_exp_def split: if_splits)
  next
    case c: (Cons c s2)
    show ?thesis
    proof (cases "c = 45 \<or> c = 43")
      case True
      with m Cons c show ?thesis
        by (cases s2) (auto simp: match_exp_def Let_def split: if_splits)
    next
      case False
      with m Cons c show ?thesis
        by (auto simp: match_exp_def Let_def split: if_splits)
    qed
  qed
qed

lemma match_number_length: "match_number s = Some (v, r) \<Longrightarrow> length r < length s"
proof -
  assume m: "match_number s = Some (v, r)"
  then obtain i s1 where i: "match_integer s = Some (i, s1)"
    by (auto simp: match_number_def split: option.splits)
  obtain f s2 where f: "match_frac s1 = (f, s2)" by (cases "match_frac s1")
  obtain x s3 where x: "match_exp s2 = (x, s3)" by (cases "match_exp s2")
  have "r = s3" using m i f x by (auto simp: match_number_def split: if_splits)
  moreover have "s = i @ f @ x @ s3" "i \<noteq> []"
    using match_integer_split [OF i] match_frac_split [OF f] match_exp_split [OF x] by auto
  ultimately show ?thesis by (cases i) auto
qed

lemma scan_mono_Suc:
  "(\<forall>s R. scan_once n s = Some R \<longrightarrow> scan_once (Suc n) s = Some R)
   \<and> (\<forall>s vs R. array_loop n s vs = Some R \<longrightarrow> array_loop (Suc n) s vs = Some R)
   \<and> (\<forall>s ps R. object_loop n s ps = Some R \<longrightarrow> object_loop (Suc n) s ps = Some R)"
proof (induction n)
  case 0
  then show ?case by simp
next
  case (Suc n)
  have so: "\<And>s R. scan_once n s = Some R \<Longrightarrow> scan_once (Suc n) s = Some R"
    and al: "\<And>s vs R. array_loop n s vs = Some R \<Longrightarrow> array_loop (Suc n) s vs = Some R"
    and ol: "\<And>s ps R. object_loop n s ps = Some R \<Longrightarrow> object_loop (Suc n) s ps = Some R"
    using Suc.IH by blast+
  have 1: "scan_once (Suc (Suc n)) s = Some R" if a: "scan_once (Suc n) s = Some R" for s R
  proof (cases s)
    case Nil
    with a show ?thesis by simp
  next
    case (Cons c cs)
    show ?thesis
    proof (cases "c = 123")
      case True
      show ?thesis
      proof (cases "skip_ws cs")
        case Nil
        with a Cons True show ?thesis by simp
      next
        case sk: (Cons d r)
        show ?thesis
        proof (cases "d = 34 \<and> d \<noteq> 125")
          case True
          with a Cons \<open>c = 123\<close> sk have "object_loop n r [] = Some R" by simp
          from ol [OF this] show ?thesis 
            using Cons \<open>c = 123\<close> sk True by (simp del: object_loop.simps)
        next
          case False
          with a Cons \<open>c = 123\<close> sk show ?thesis by auto
        qed
      qed
    next
      case n123: False
      show ?thesis
      proof (cases "c = 91")
        case True
        show ?thesis
        proof (cases "skip_ws cs")
          case Nil
          with a Cons True have "array_loop n [] [] = Some R" by simp
          from al [OF this] show ?thesis
            using Cons True Nil by (simp del: array_loop.simps)
        next
          case sk: (Cons d r)
          show ?thesis
          proof (cases "d = 93")
            case True
            with a Cons \<open>c = 91\<close> sk show ?thesis by simp
          next
            case False
            with a Cons \<open>c = 91\<close> sk have "array_loop n (d # r) [] = Some R" by simp
            from al [OF this] show ?thesis
              using Cons \<open>c = 91\<close> sk False by (simp del: array_loop.simps)
          qed
        qed
      next
        case False
        have "scan_once (Suc (Suc n)) s = scan_once (Suc n) s"
          using Cons n123 False by (simp del: array_loop.simps object_loop.simps)
        with a show ?thesis by simp
      qed
    qed
  qed
  have 2: "array_loop (Suc (Suc n)) s vs = Some R" if a: "array_loop (Suc n) s vs = Some R" for s vs R
  proof (cases "scan_once n s")
    case None
    with a show ?thesis by simp
  next
    case (Some x)
    have b: "scan_once (Suc n) s = Some x" by (rule so [OF Some])
    show ?thesis
      apply (subst array_loop.simps(2))
      using a
      apply (subst (asm) array_loop.simps(2))
      apply (simp only: b Some option.case)
      apply (auto simp del: scan_once.simps array_loop.simps
               split: sum.splits list.splits if_splits intro: al)
      done
  qed
  have 3: "object_loop (Suc (Suc n)) s ps = Some R" if a: "object_loop (Suc n) s ps = Some R" for s ps R
  proof (cases "scanstring s")
    case (Inl e)
    with a show ?thesis by simp
  next
    case (Inr kr)
    obtain key r where kr: "kr = (key, r)" by (cases kr)
    show ?thesis
    proof (cases "skip_ws r")
      case Nil
      with a Inr kr show ?thesis by simp
    next
      case (Cons d r1)
      show ?thesis
      proof (cases "d = 58")
        case False
        with a Inr kr Cons show ?thesis by simp
      next
        case True
        show ?thesis
        proof (cases "scan_once n (skip_ws r1)")
          case None
          with a Inr kr Cons True show ?thesis by simp
        next
          case (Some x)
          have b: "scan_once (Suc n) (skip_ws r1) = Some x" by (rule so [OF Some])
          show ?thesis
            apply (subst object_loop.simps(2))
            using a
            apply (subst (asm) object_loop.simps(2))
            apply (simp only: b Some Inr kr Cons True option.case sum.case prod.case list.case
                     simp_thms if_False)
            apply (auto simp del: scan_once.simps object_loop.simps
                     split: sum.splits list.splits if_splits intro: ol)
            done
        qed
      qed
    qed
  qed
  from 1 2 3 show ?case by blast
qed


lemma scan_once_mono: "scan_once n s = Some R \<Longrightarrow> n \<le> m \<Longrightarrow> scan_once m s = Some R"
proof (induction m)
  case 0
  then show ?case by simp
next
  case (Suc m)
  show ?case
  proof (cases "n = Suc m")
    case True
    with Suc.prems show ?thesis by simp
  next
    case False
    with Suc have "scan_once m s = Some R" by simp
    with scan_mono_Suc [of m] show ?thesis by blast
  qed
qed

lemma match_number_hd:
  "match_number s = Some (v, r) \<Longrightarrow> \<exists>c cs. s = c # cs \<and> (c = 45 \<or> is_digit c)"
  by (cases s) (auto simp: match_number_def match_integer_def Let_def is_digit_def
                     split: option.splits if_splits list.splits)

lemma array_loop_Nil: "array_loop n [] vs \<noteq> Some (Inr x)"
proof (cases n)
  case 0
  then show ?thesis by simp
next
  case (Suc m)
  then show ?thesis by (cases m) auto
qed

lemma scan_once_SucE:
  assumes "scan_once (Suc n) s = Some (Inr (v, r))"
  obtains
    (str) cs t where "s = 34 # cs" "scanstring cs = Inr (t, r)" "v = PStr t"
  | (empty_dict) cs where "s = 123 # cs" "skip_ws cs = 125 # r" "v = PDict []"
  | (dict) cs r' where "s = 123 # cs" "skip_ws cs = 34 # r'"
      "object_loop n r' [] = Some (Inr (v, r))"
  | (empty_list) cs where "s = 91 # cs" "skip_ws cs = 93 # r" "v = PList []"
  | (list) cs d r' where "s = 91 # cs" "skip_ws cs = d # r'" "d \<noteq> 93"
      "array_loop n (d # r') [] = Some (Inr (v, r))"
  | (null) "s = str_of ''null'' @ r" "v = PNone"
  | (true) "s = str_of ''true'' @ r" "v = PBool True"
  | (false) "s = str_of ''false'' @ r" "v = PBool False"
  | (number) "match_number s = Some (v, r)"
  | (nan) "s = str_of ''NaN'' @ r" "v = PFloat (str_of ''nan'')"
  | (inf) "s = str_of ''Infinity'' @ r" "v = PFloat (str_of ''inf'')"
  | (neginf) "s = str_of ''-Infinity'' @ r" "v = PFloat (str_of ''-inf'')"
proof (cases s)
  case Nil
  with assms show ?thesis by simp
next
  case (Cons c cs)
  note a = assms [unfolded scan_once.simps(2), unfolded Cons list.case, folded Cons]
  show ?thesis
  proof (cases "c = 34")
    case True
    with a str Cons show ?thesis by (auto split: sum.splits)
  next
    case n34: False
    show ?thesis
    proof (cases "c = 123")
      case True
      with a n34 Cons empty_dict dict show ?thesis
        by (auto split: list.splits if_splits)
    next
      case n123: False
      show ?thesis
      proof (cases "c = 91")
        case True
        with a n34 n123 Cons empty_list list array_loop_Nil show ?thesis
          by (auto split: list.splits if_splits)
      next
        case n91: False
        have b: "(if c = 110 \<and> take 4 s = str_of ''null'' then Some (Inr (PNone, drop 4 s))
           else if c = 116 \<and> take 4 s = str_of ''true'' then Some (Inr (PBool True, drop 4 s))
           else if c = 102 \<and> take 5 s = str_of ''false'' then Some (Inr (PBool False, drop 5 s))
           else
             (case match_number s of
                Some (res, r) \<Rightarrow> Some (Inr (res, r))
              | None \<Rightarrow>
                  if c = 78 \<and> take 3 s = str_of ''NaN''
                  then Some (Inr (PFloat (str_of ''nan''), drop 3 s))
                  else if c = 73 \<and> take 8 s = str_of ''Infinity''
                  then Some (Inr (PFloat (str_of ''inf''), drop 8 s))
                  else if c = 45 \<and> take 9 s = str_of ''-Infinity''
                  then Some (Inr (PFloat (str_of ''-inf''), drop 9 s))
                  else Some (Inl JSONDecodeError))) = Some (Inr (v, r))"
          using a n34 n123 n91 by (simp only: if_False)
        have td: "\<And>k x. take k s = x \<Longrightarrow> s = x @ drop k s"
          by (metis append_take_drop_id)
        show ?thesis
        proof (cases "c = 110 \<and> take 4 s = str_of ''null''")
          case True
          then have "v = PNone" "r = drop 4 s" using b by auto
          with True null td [of 4] show ?thesis by blast
        next
          case nnull: False
          show ?thesis
          proof (cases "c = 116 \<and> take 4 s = str_of ''true''")
            case True
            then have "v = PBool True" "r = drop 4 s" using b nnull by auto
            with True true td [of 4] show ?thesis by blast
          next
            case ntrue: False
            show ?thesis
            proof (cases "c = 102 \<and> take 5 s = str_of ''false''")
              case True
              then have "v = PBool False" "r = drop 5 s" using b nnull ntrue by auto
              with True false td [of 5] show ?thesis by blast
            next
              case nfalse: False
              show ?thesis
              proof (cases "match_number s")
                case (Some vr)
                with b nnull ntrue nfalse number show ?thesis by auto
              next
                case None
                show ?thesis
                proof (cases "c = 78 \<and> take 3 s = str_of ''NaN''")
                  case True
                  then have "v = PFloat (str_of ''nan'')" "r = drop 3 s"
                    using b nnull ntrue nfalse None by auto
                  with True nan td [of 3] show ?thesis by blast
                next
                  case nnan: False
                  show ?thesis
                  proof (cases "c = 73 \<and> take 8 s = str_of ''Infinity''")
                    case True
                    then have "v = PFloat (str_of ''inf'')" "r = drop 8 s"
                      using b nnull ntrue nfalse None nnan by auto
                    with True inf td [of 8] show ?thesis by blast
                  next
                    case ninf: False
                    show ?thesis
                    proof (cases "c = 45 \<and> take 9 s = str_of ''-Infinity''")
                      case True
                      then have "v = PFloat (str_of ''-inf'')" "r = drop 9 s"
                        using b nnull ntrue nfalse None nnan ninf by auto
                      with True neginf td [of 9] show ?thesis by blast
                    next
                      case False
                      with b nnull ntrue nfalse None nnan ninf show ?thesis by auto
                    qed
                  qed
                qed
              qed
            qed
          qed
        qed
      qed
    qed
  qed
qed

lemma array_loop_SucE:
  assumes "array_loop (Suc n) s vs = Some (Inr (res, rest))"
  obtains
    (last) v r where "scan_once n s = Some (Inr (v, r))" "skip_ws r = 93 # rest"
      "res = PList (vs @ [v])"
  | (more) v r r1 where "scan_once n s = Some (Inr (v, r))" "skip_ws r = 44 # r1"
      "array_loop n (skip_ws r1) (vs @ [v]) = Some (Inr (res, rest))"
  using assms
  by (auto split: option.splits sum.splits list.splits if_splits)

lemma object_loop_SucE:
  assumes "object_loop (Suc n) s ps = Some (Inr (res, rest))"
  obtains
    (last) key r r1 v r2 where "scanstring s = Inr (key, r)" "skip_ws r = 58 # r1"
      "scan_once n (skip_ws r1) = Some (Inr (v, r2))" "skip_ws r2 = 125 # rest"
      "res = PDict (dict (ps @ [(key, v)]))"
  | (more) key r r1 v r2 r3 r4 where "scanstring s = Inr (key, r)" "skip_ws r = 58 # r1"
      "scan_once n (skip_ws r1) = Some (Inr (v, r2))" "skip_ws r2 = 44 # r3"
      "skip_ws r3 = 34 # r4"
      "object_loop n r4 (ps @ [(key, v)]) = Some (Inr (res, rest))"
  using assms
  by (auto split: option.splits sum.splits list.splits if_splits)

lemma array_loop_last:
  "scan_once n s = Some (Inr (v, r)) \<Longrightarrow> skip_ws r = 93 # rest \<Longrightarrow>
   array_loop (Suc n) s vs = Some (Inr (PList (vs @ [v]), rest))"
  by simp

lemma array_loop_more:
  "scan_once n s = Some (Inr (v, r)) \<Longrightarrow> skip_ws r = 44 # r1 \<Longrightarrow>
   array_loop (Suc n) s vs = array_loop n (skip_ws r1) (vs @ [v])"
  by simp

lemma object_loop_last:
  "scanstring s = Inr (key, r) \<Longrightarrow> skip_ws r = 58 # r1 \<Longrightarrow>
   scan_once n (skip_ws r1) = Some (Inr (v, r2)) \<Longrightarrow> skip_ws r2 = 125 # rest \<Longrightarrow>
   object_loop (Suc n) s ps = Some (Inr (PDict (dict (ps @ [(key, v)])), rest))"
  by simp

lemma object_loop_more:
  "scanstring s = Inr (key, r) \<Longrightarrow> skip_ws r = 58 # r1 \<Longrightarrow>
   scan_once n (skip_ws r1) = Some (Inr (v, r2)) \<Longrightarrow> skip_ws r2 = 44 # r3 \<Longrightarrow>
   skip_ws r3 = 34 # r4 \<Longrightarrow>
   object_loop (Suc n) s ps = object_loop n r4 (ps @ [(key, v)])"
  by simp

lemma skip_ws_length_Cons: "skip_ws r = c # r1 \<Longrightarrow> length r1 < length r"
  using skip_ws_length [of r] by simp

lemma scan_length:
  "(\<forall>s v r. scan_once n s = Some (Inr (v, r)) \<longrightarrow> length r < length s)
   \<and> (\<forall>s vs v r. array_loop n s vs = Some (Inr (v, r)) \<longrightarrow> length r < length s)
   \<and> (\<forall>s ps v r. object_loop n s ps = Some (Inr (v, r)) \<longrightarrow> length r < length s)"
proof (induction n)
  case 0
  then show ?case by simp
next
  case (Suc n)
  have so: "\<And>s v r. scan_once n s = Some (Inr (v, r)) \<Longrightarrow> length r < length s"
    and al: "\<And>s vs v r. array_loop n s vs = Some (Inr (v, r)) \<Longrightarrow> length r < length s"
    and ol: "\<And>s ps v r. object_loop n s ps = Some (Inr (v, r)) \<Longrightarrow> length r < length s"
    using Suc.IH by blast+
  have 1: "length r < length s" if a: "scan_once (Suc n) s = Some (Inr (v, r))" for s v r
    using a
  proof (cases rule: scan_once_SucE)
    case (str cs t)
    then show ?thesis using scanstring_length [of cs t r] by simp
  next
    case (empty_dict cs)
    then show ?thesis using skip_ws_length_Cons [of cs] by simp
  next
    case (dict cs r')
    then show ?thesis using ol [of r' "[]" v r] skip_ws_length_Cons [of cs] by simp
  next
    case (empty_list cs)
    then show ?thesis using skip_ws_length_Cons [of cs] by simp
  next
    case (list cs d r')
    then show ?thesis using al [of "d # r'" "[]" v r] skip_ws_length [of cs] by simp
  next
    case number
    then show ?thesis by (rule match_number_length)
  qed (simp_all add: str_of_def)
  have 2: "length r < length s" if a: "array_loop (Suc n) s vs = Some (Inr (v, r))" for s vs v r
    using a
  proof (cases rule: array_loop_SucE)
    case (last v' r')
    then show ?thesis using so [of s v' r'] skip_ws_length_Cons [of r'] by simp
  next
    case (more v' r' r1)
    then show ?thesis
      using so [of s v' r'] skip_ws_length_Cons [of r'] skip_ws_length [of r1]
        al [of "skip_ws r1" "vs @ [v']" v r] by simp
  qed
  have 3: "length r < length s" if a: "object_loop (Suc n) s ps = Some (Inr (v, r))" for s ps v r
    using a
  proof (cases rule: object_loop_SucE)
    case (last key r0 r1 v' r2)
    then show ?thesis
      using scanstring_length [of s key r0] skip_ws_length_Cons [of r0] skip_ws_length [of r1]
        so [of "skip_ws r1" v' r2] skip_ws_length_Cons [of r2] by simp
  next
    case (more key r0 r1 v' r2 r3 r4)
    then show ?thesis
      using scanstring_length [of s key r0] skip_ws_length_Cons [of r0] skip_ws_length [of r1]
        so [of "skip_ws r1" v' r2] skip_ws_length_Cons [of r2] skip_ws_length_Cons [of r3]
        ol [of r4 "ps @ [(key, v')]" v r] by simp
  qed
  from 1 2 3 show ?case by blast
qed

lemma scan_error:
  "(\<forall>s e. scan_once n s = Some (Inl e) \<longrightarrow> e = JSONDecodeError)
   \<and> (\<forall>s vs e. array_loop n s vs = Some (Inl e) \<longrightarrow> e = JSONDecodeError)
   \<and> (\<forall>s ps e. object_loop n s ps = Some (Inl e) \<longrightarrow> e = JSONDecodeError)"
proof (induction n)
  case 0
  then show ?case by simp
next
  case (Suc n)
  have so: "\<And>s e. scan_once n s = Some (Inl e) \<Longrightarrow> e = JSONDecodeError"
    and al: "\<And>s vs e. array_loop n s vs = Some (Inl e) \<Longrightarrow> e = JSONDecodeError"
    and ol: "\<And>s ps e. object_loop n s ps = Some (Inl e) \<Longrightarrow> e = JSONDecodeError"
    using Suc.IH by blast+
  have 1: "e = JSONDecodeError" if a: "scan_once (Suc n) s = Some (Inl e)" for s e
    using a
    apply (subst (asm) scan_once.simps(2))
    apply (auto split: list.splits if_splits sum.splits option.splits
                dest: scanstring_error al ol simp del: array_loop.simps object_loop.simps)
    done
  have 2: "e = JSONDecodeError" if a: "array_loop (Suc n) s vs = Some (Inl e)" for s vs e
    using a
    apply (subst (asm) array_loop.simps(2))
    apply (auto split: list.splits if_splits sum.splits option.splits
                dest: so al simp del: array_loop.simps scan_once.simps)
    done
  have 3: "e = JSONDecodeError" if a: "object_loop (Suc n) s ps = Some (Inl e)" for s ps e
    using a
    apply (subst (asm) object_loop.simps(2))
    apply (auto split: list.splits if_splits sum.splits option.splits
                dest: so ol scanstring_error simp del: object_loop.simps scan_once.simps)
    apply (erule so)
    apply (erule ol)
    done
  from 1 2 3 show ?case by blast
qed


lemma scan_total:
  "(\<forall>s. 2 * length s + 1 \<le> n \<longrightarrow> scan_once n s \<noteq> None)
   \<and> (\<forall>s vs. 2 * length s + 2 \<le> n \<longrightarrow> array_loop n s vs \<noteq> None)
   \<and> (\<forall>s ps. 2 * length s + 2 \<le> n \<longrightarrow> object_loop n s ps \<noteq> None)"
proof (induction n)
  case 0
  then show ?case by simp
next
  case (Suc n)
  have so: "\<And>s. 2 * length s + 1 \<le> n \<Longrightarrow> scan_once n s \<noteq> None"
    and al: "\<And>s vs. 2 * length s + 2 \<le> n \<Longrightarrow> array_loop n s vs \<noteq> None"
    and ol: "\<And>s ps. 2 * length s + 2 \<le> n \<Longrightarrow> object_loop n s ps \<noteq> None"
    using Suc.IH by blast+
  have 1: "scan_once (Suc n) s \<noteq> None" if b: "2 * length s + 1 \<le> Suc n" for s
  proof (cases s)
    case Nil
    then show ?thesis by simp
  next
    case (Cons c cs)
    show ?thesis
    proof (cases "c = 123")
      case True
      show ?thesis
      proof (cases "skip_ws cs")
        case Nil
        with Cons True show ?thesis by simp
      next
        case sk: (Cons d r)
        have "2 * length r + 2 \<le> n"
          using skip_ws_length_Cons [OF sk] b Cons by simp
        from ol [OF this, of "[]"] show ?thesis
          using Cons True sk by (auto simp del: object_loop.simps)
      qed
    next
      case n123: False
      show ?thesis
      proof (cases "c = 91")
        case True
        show ?thesis
        proof (cases "skip_ws cs")
          case Nil
          have "2 * length ([]::str) + 2 \<le> n" using b Cons by simp
          from al [OF this, of "[]"] show ?thesis
            using Cons True Nil by (simp del: array_loop.simps)
        next
          case sk: (Cons d r)
          have "2 * length (d # r) + 2 \<le> n"
            using skip_ws_length [of cs] sk b Cons by simp
          from al [OF this, of "[]"] show ?thesis
            using Cons True sk by (auto simp del: array_loop.simps)
        qed
      next
        case False
        then show ?thesis
          using Cons n123
          by (auto simp del: array_loop.simps object_loop.simps split: option.splits)
      qed
    qed
  qed
  have 2: "array_loop (Suc n) s vs \<noteq> None" if b: "2 * length s + 2 \<le> Suc n" for s vs
  proof (cases "scan_once n s")
    case None
    with so [of s] b show ?thesis by simp
  next
    case (Some x)
    show ?thesis
    proof (cases x)
      case (Inl e)
      with Some show ?thesis by simp
    next
      case (Inr vr)
      obtain v r where vr: "vr = (v, r)" by (cases vr)
      have lr: "length r < length s"
        using scan_length [of n] Some Inr vr by blast
      show ?thesis
      proof (cases "skip_ws r")
        case Nil
        with Some Inr vr show ?thesis by simp
      next
        case (Cons d r1)
        have "2 * length (skip_ws r1) + 2 \<le> n"
          using skip_ws_length_Cons [OF Cons] skip_ws_length [of r1] lr b by simp
        note F = al [OF this, of "vs @ [v]"]
        show ?thesis
          apply (subst array_loop.simps(2))
          using F Some Inr vr Cons by (auto simp del: array_loop.simps scan_once.simps)
      qed
    qed
  qed
  have 3: "object_loop (Suc n) s ps \<noteq> None" if b: "2 * length s + 2 \<le> Suc n" for s ps
  proof (cases "scanstring s")
    case (Inl e)
    then show ?thesis by simp
  next
    case (Inr kr)
    obtain key r where kr: "kr = (key, r)" by (cases kr)
    have l0: "length r < length s" using scanstring_length Inr kr by blast
    show ?thesis
    proof (cases "skip_ws r")
      case Nil
      with Inr kr show ?thesis by simp
    next
      case (Cons d r1)
      have l1: "length (skip_ws r1) < length r"
        using skip_ws_length_Cons [OF Cons] skip_ws_length [of r1] by simp
      show ?thesis
      proof (cases "scan_once n (skip_ws r1)")
        case None
        with so [of "skip_ws r1"] l0 l1 b show ?thesis by simp
      next
        case (Some x)
        show ?thesis
        proof (cases x)
          case (Inl e)
          with Some Inr kr Cons show ?thesis by simp
        next
          case vr: (Inr vr)
          obtain v r2 where vr2: "vr = (v, r2)" by (cases vr)
          have l2: "length r2 < length (skip_ws r1)"
            using scan_length [of n] Some vr vr2 by blast
          show ?thesis
          proof (cases "skip_ws r2")
            case Nil
            with Some Inr kr Cons vr vr2 show ?thesis by simp
          next
            case r3: (Cons d2 r3)
            show ?thesis
            proof (cases "skip_ws r3")
              case Nil
              with Some Inr kr Cons vr vr2 r3 show ?thesis by simp
            next
              case r4: (Cons q r4)
              have "2 * length r4 + 2 \<le> n"
                using skip_ws_length_Cons [OF r4] skip_ws_length_Cons [OF r3] l0 l1 l2 b by simp
              note F = ol [OF this, of "ps @ [(key, v)]"]
              show ?thesis
                apply (subst object_loop.simps(2))
                using F Some Inr kr Cons vr vr2 r3 r4
                by (auto simp del: object_loop.simps scan_once.simps)
            qed
          qed
        qed
      qed
    qed
  qed
  from 1 2 3 show ?case by blast
qed

lemma scan_once_Nil: "scan_once n [] \<noteq> Some (Inr x)"
  by (cases n) auto

lemma scan_once_null: "scan_once (Suc n) (str_of ''null'' @ x) = Some (Inr (PNone, x))"
  by (simp add: str_of_def)

lemma scan_once_true: "scan_once (Suc n) (str_of ''true'' @ x) = Some (Inr (PBool True, x))"
  by (simp add: str_of_def)

lemma scan_once_false: "scan_once (Suc n) (str_of ''false'' @ x) = Some (Inr (PBool False, x))"
  by (simp add: str_of_def)

lemma scan_once_nan:
  "scan_once (Suc n) (str_of ''NaN'' @ x) = Some (Inr (PFloat (str_of ''nan''), x))"
  by (simp add: str_of_def match_number_def match_integer_def is_digit_def)

lemma scan_once_inf:
  "scan_once (Suc n) (str_of ''Infinity'' @ x) = Some (Inr (PFloat (str_of ''inf''), x))"
  by (simp add: str_of_def match_number_def match_integer_def is_digit_def)

lemma scan_once_neginf:
  "scan_once (Suc n) (str_of ''-Infinity'' @ x) = Some (Inr (PFloat (str_of ''-inf''), x))"
  by (simp add: str_of_def match_number_def match_integer_def is_digit_def)

lemma scan_once_number:
  assumes "match_number s = Some (v, r)"
  shows "scan_once (Suc n) s = Some (Inr (v, r))"
proof -
  obtain c cs where s: "s = c # cs" and c: "c = 45 \<or> is_digit c"
    using match_number_hd [OF assms] by blast
  from c have "c \<noteq> 34" "c \<noteq> 123" "c \<noteq> 91" "c \<noteq> 110" "c \<noteq> 116" "c \<noteq> 102"
    by (auto simp: is_digit_def)
  then show ?thesis
    using assms unfolding s by (simp del: array_loop.simps object_loop.simps)
qed


lemma skip_ws_append_Cons: "skip_ws s = c # r \<Longrightarrow> skip_ws (s @ t) = c # r @ t"
  using skip_ws_append [of s t] by simp

lemma scan_append:
  assumes t: "number_stop t"
  shows
  "(\<forall>s v r. scan_once n s = Some (Inr (v, r)) \<longrightarrow> scan_once n (s @ t) = Some (Inr (v, r @ t)))
   \<and> (\<forall>s vs v r. array_loop n s vs = Some (Inr (v, r))
          \<longrightarrow> array_loop n (s @ t) vs = Some (Inr (v, r @ t)))
   \<and> (\<forall>s ps v r. object_loop n s ps = Some (Inr (v, r))
          \<longrightarrow> object_loop n (s @ t) ps = Some (Inr (v, r @ t)))"
proof (induction n)
  case 0
  then show ?case by simp
next
  case (Suc n)
  have so: "\<And>s v r. scan_once n s = Some (Inr (v, r))
              \<Longrightarrow> scan_once n (s @ t) = Some (Inr (v, r @ t))"
    and al: "\<And>s vs v r. array_loop n s vs = Some (Inr (v, r))
              \<Longrightarrow> array_loop n (s @ t) vs = Some (Inr (v, r @ t))"
    and ol: "\<And>s ps v r. object_loop n s ps = Some (Inr (v, r))
              \<Longrightarrow> object_loop n (s @ t) ps = Some (Inr (v, r @ t))"
    using Suc.IH by blast+
  have 1: "scan_once (Suc n) (s @ t) = Some (Inr (v, r @ t))"
    if a: "scan_once (Suc n) s = Some (Inr (v, r))" for s v r
    using a
  proof (cases rule: scan_once_SucE)
    case (str cs k)
    then show ?thesis using scanstring_append [of cs k r t] by simp
  next
    case (empty_dict cs)
    then show ?thesis using skip_ws_append_Cons [of cs 125 r t] by simp
  next
    case (dict cs r')
    then show ?thesis
      using skip_ws_append_Cons [of cs 34 r' t] ol [of r' "[]" v r]
      by (simp del: object_loop.simps)
  next
    case (empty_list cs)
    then show ?thesis using skip_ws_append_Cons [of cs 93 r t] by simp
  next
    case (list cs d r')
    then show ?thesis
      using skip_ws_append_Cons [of cs d r' t] al [of "d # r'" "[]" v r]
      by (simp del: array_loop.simps)
  next
    case null
    then show ?thesis using scan_once_null [of n "r @ t"] by simp
  next
    case true
    then show ?thesis using scan_once_true [of n "r @ t"] by simp
  next
    case false
    then show ?thesis using scan_once_false [of n "r @ t"] by simp
  next
    case number
    from match_number_append [OF this t] show ?thesis by (rule scan_once_number)
  next
    case nan
    then show ?thesis using scan_once_nan [of n "r @ t"] by simp
  next
    case inf
    then show ?thesis using scan_once_inf [of n "r @ t"] by simp
  next
    case neginf
    then show ?thesis using scan_once_neginf [of n "r @ t"] by simp
  qed
  have 2: "array_loop (Suc n) (s @ t) vs = Some (Inr (v, r @ t))"
    if a: "array_loop (Suc n) s vs = Some (Inr (v, r))" for s vs v r
    using a
  proof (cases rule: array_loop_SucE)
    case (last v' r')
    show ?thesis
      using array_loop_last [OF so [OF last(1)] skip_ws_append_Cons [OF last(2)], of vs] last(3)
      by simp
  next
    case (more v' r' r1)
    have "skip_ws r1 \<noteq> []" using more(3) array_loop_Nil by metis
    then have "skip_ws (r1 @ t) = skip_ws r1 @ t" by (rule skip_ws_append)
    then show ?thesis
      using array_loop_more [OF so [OF more(1)] skip_ws_append_Cons [OF more(2)], of vs]
        al [OF more(3)]
      by simp
  qed
  have 3: "object_loop (Suc n) (s @ t) ps = Some (Inr (v, r @ t))"
    if a: "object_loop (Suc n) s ps = Some (Inr (v, r))" for s ps v r
    using a
  proof (cases rule: object_loop_SucE)
    case (last key r0 r1 v' r2)
    have "skip_ws r1 \<noteq> []" using last(3) scan_once_Nil by metis
    then have sk: "skip_ws (r1 @ t) = skip_ws r1 @ t" by (rule skip_ws_append)
    show ?thesis
      using object_loop_last [OF scanstring_append [OF last(1)] skip_ws_append_Cons [OF last(2)]
          so [OF last(3), folded sk] skip_ws_append_Cons [OF last(4)], of ps] last(5)
      by simp
  next
    case (more key r0 r1 v' r2 r3 r4)
    have "skip_ws r1 \<noteq> []" using more(3) scan_once_Nil by metis
    then have sk: "skip_ws (r1 @ t) = skip_ws r1 @ t" by (rule skip_ws_append)
    show ?thesis
      using object_loop_more [OF scanstring_append [OF more(1)] skip_ws_append_Cons [OF more(2)]
          so [OF more(3), folded sk] skip_ws_append_Cons [OF more(4)]
          skip_ws_append_Cons [OF more(5)], of ps] ol [OF more(6)]
      by simp
  qed
  from 1 2 3 show ?case by blast
qed

end
